theory Spec2Isabelle
  imports Main
begin

section \<open>JavaScript values and the object store\<close>

text \<open>
  The builder of \<^verbatim>\<open>src/Builder.js\<close> stores arbitrary JavaScript values. A primitive
  is held directly; an array or an object is a reference into a store of cells, so that
  two references to one array are distinguishable from two equal arrays.

  A cell records whether its array or object is an instance of \<^verbatim>\<open>Object\<close> for the
  code: one made in the realm of the builder is; an array or object that comes from
  another realm (a frame), and an object made by \<^verbatim>\<open>Object.create(null)\<close>, are not.

  Numbers are integers (the documented type of \<^verbatim>\<open>limit\<close> and \<^verbatim>\<open>page\<close>); arithmetic
  is exact on them only inside the range where IEEE doubles are, see \<open>safe_int\<close>.
  Strings are lists of 8-bit characters, read as the code points 0 to 255.
\<close>

type_synonym addr = nat

datatype jsval =
    Undefined
  | Null
  | Bool bool
  | Num int
  | Str string
  | Ref addr

datatype hobj =
    HArr "jsval list"
  | HObj "(string \<times> jsval) list"
  | HArrOther "jsval list"
  | HObjOther "(string \<times> jsval) list"
  | HObjBare "(string \<times> jsval) list"

text \<open>The store: the cell of address \<open>a\<close> is the \<open>a\<close>-th element; allocation appends.\<close>

type_synonym heap = "hobj list"

definition lookup :: "heap \<Rightarrow> addr \<Rightarrow> hobj option" where
  "lookup h a = (if a < length h then Some (h ! a) else None)"

definition alloc :: "heap \<Rightarrow> hobj \<Rightarrow> addr \<times> heap" where
  "alloc h c = (length h, h @ [c])"

text \<open>The values held in a cell, in order, and the keys of an object.\<close>

definition cell_values :: "hobj \<Rightarrow> jsval list" where
  "cell_values c =
     (case c of
        HArr xs \<Rightarrow> xs
      | HObj kvs \<Rightarrow> map snd kvs
      | HArrOther xs \<Rightarrow> xs
      | HObjOther kvs \<Rightarrow> map snd kvs
      | HObjBare kvs \<Rightarrow> map snd kvs)"

text \<open>
  \<^verbatim>\<open>v instanceof Object\<close>: the prototype of the realm's \<^verbatim>\<open>Object\<close> is on the
  prototype chain of \<open>v\<close>. It is false of a primitive, of an array or object of
  another realm and of an object without prototype; so is \<^verbatim>\<open>v instanceof Array\<close>,
  which is true of the arrays of the realm only.
\<close>

definition instanceof_Object :: "heap \<Rightarrow> jsval \<Rightarrow> bool" where
  "instanceof_Object h v =
     (case v of
        Ref a \<Rightarrow>
          (case lookup h a of
             Some (HArr _) \<Rightarrow> True
           | Some (HObj _) \<Rightarrow> True
           | _ \<Rightarrow> False)
      | _ \<Rightarrow> False)"

text \<open>
  What the code can raise. \<open>OutsideModel\<close> is not a JavaScript exception: it marks the
  inputs this development does not cover (floating-point numbers and \<^verbatim>\<open>NaN\<close>, the
  conversion of a cyclic value to a string, coercions of non-numbers in arithmetic).
\<close>

datatype error =
    DuplicateVariableException string
  | UnknownVariableException string
  | TypeError
  | OutsideModel

text \<open>What a method returns: \<^verbatim>\<open>this\<close>, or a value (\<^verbatim>\<open>undefined\<close> when it falls off its end).\<close>

datatype ret = RThis | RVal jsval

section \<open>The key-unique ordered collection\<close>

text \<open>
  Modelled from the spec: the class \<^verbatim>\<open>Collection\<close> of the package \<^verbatim>\<open>js_collection\<close> is
  imported by \<^verbatim>\<open>Builder.js\<close> and is not part of the sources. The spec describes it as an
  ordered collection of items, keyed by one field of the item, with lookup by key that
  yields the item or null, insertion at the end, and iteration in insertion order.
  An item \<^verbatim>\<open>{filter: k, value: v}\<close> or \<^verbatim>\<open>{name: k, value: v}\<close> is the pair \<open>(k, v)\<close>.
\<close>

type_synonym collection = "(string \<times> jsval) list"

text \<open>
  Modelled from the spec: \<^verbatim>\<open>get(key)\<close>, lookup by key with no error on a miss; the
  value of the first item of that key.
\<close>

fun collection_get :: "collection \<Rightarrow> string \<Rightarrow> jsval option" where
  "collection_get [] k = None"
| "collection_get ((k', v) # xs) k = (if k' = k then Some v else collection_get xs k)"

text \<open>Modelled from the spec: \<^verbatim>\<open>push(item)\<close>, insertion at the end.\<close>

definition collection_push :: "collection \<Rightarrow> string \<times> jsval \<Rightarrow> collection" where
  "collection_push xs item = xs @ [item]"

text \<open>
  Modelled from the spec: \<^verbatim>\<open>c.get(k).value = v\<close>, a write to the item that \<^verbatim>\<open>get\<close>
  returns; the item found by \<open>collection_get\<close> is changed in place.
\<close>

fun set_value :: "collection \<Rightarrow> string \<Rightarrow> jsval \<Rightarrow> collection" where
  "set_value [] k v = []"
| "set_value ((k', v') # xs) k v =
     (if k' = k then (k', v) # xs else (k', v') # set_value xs k v)"

section \<open>The builder\<close>

record builder =
  model :: string
  constraints :: collection
  appends :: collection

text \<open>The constructor; the model descriptor is represented by its URL.\<close>

definition new_builder :: "string \<Rightarrow> builder" where
  "new_builder m =
     \<lparr> model = m,
       constraints = [],
       appends = [(''limit'', Num 15), (''page'', Num 1)] \<rparr>"

definition hasConstraint :: "builder \<Rightarrow> string \<Rightarrow> bool" where
  "hasConstraint b fname = (collection_get (constraints b) fname \<noteq> None)"

definition hasVariable :: "builder \<Rightarrow> string \<Rightarrow> bool" where
  "hasVariable b name = (collection_get (appends b) name \<noteq> None)"

definition getVariable :: "builder \<Rightarrow> string \<Rightarrow> jsval \<Rightarrow> jsval" where
  "getVariable b name default_result =
     (if hasVariable b name then the (collection_get (appends b) name) else default_result)"

definition appendB :: "builder \<Rightarrow> string \<Rightarrow> jsval \<Rightarrow> error + (ret \<times> builder)" where
  "appendB b name v =
     (if hasVariable b name then Inl (DuplicateVariableException name)
      else Inr (RThis, b\<lparr>appends := collection_push (appends b) (name, v)\<rparr>))"

text \<open>\<^verbatim>\<open>updateVariable\<close> has no \<^verbatim>\<open>return\<close> statement: it returns \<^verbatim>\<open>undefined\<close>.\<close>

definition updateVariable :: "builder \<Rightarrow> string \<Rightarrow> jsval \<Rightarrow> error + (ret \<times> builder)" where
  "updateVariable b name v =
     (if hasVariable b name
      then Inr (RVal Undefined, b\<lparr>appends := set_value (appends b) name v\<rparr>)
      else Inl (UnknownVariableException name))"

definition whereC :: "builder \<Rightarrow> string \<Rightarrow> jsval \<Rightarrow> ret \<times> builder" where
  "whereC b fname v =
     (case collection_get (constraints b) fname of
        None \<Rightarrow> (RThis, b\<lparr>constraints := collection_push (constraints b) (fname, v)\<rparr>)
      | Some _ \<Rightarrow> (RThis, b\<lparr>constraints := set_value (constraints b) fname v\<rparr>))"

definition getLimit :: "builder \<Rightarrow> jsval" where
  "getLimit b =
     (if hasVariable b ''limit'' then the (collection_get (appends b) ''limit'')
      else Num (- 1))"

definition setLimit :: "builder \<Rightarrow> jsval \<Rightarrow> error + (ret \<times> builder)" where
  "setLimit b v =
     (if hasVariable b ''limit''
      then (case updateVariable b ''limit'' v of
              Inl e \<Rightarrow> Inl e
            | Inr (_, b') \<Rightarrow> Inr (RThis, b'))
      else (case appendB b ''limit'' v of
              Inl e \<Rightarrow> Inl e
            | Inr (_, b') \<Rightarrow> Inr (RThis, b')))"

text \<open>
  \<^verbatim>\<open>this.appends.get('page').value\<close>: reading or writing \<^verbatim>\<open>.value\<close> of the null that a
  missing item gives raises a TypeError.
\<close>

definition currentPage :: "builder \<Rightarrow> error + jsval" where
  "currentPage b =
     (case collection_get (appends b) ''page'' of
        None \<Rightarrow> Inl TypeError
      | Some v \<Rightarrow> Inr v)"

definition setPage :: "builder \<Rightarrow> jsval \<Rightarrow> error + (ret \<times> builder)" where
  "setPage b page =
     (case collection_get (appends b) ''page'' of
        None \<Rightarrow> Inl TypeError
      | Some _ \<Rightarrow> Inr (RThis, b\<lparr>appends := set_value (appends b) ''page'' page\<rparr>))"

text \<open>
  \<^verbatim>\<open>x + 1\<close> and \<^verbatim>\<open>x - 1\<close> on a number. Below \<open>2 ^ 53\<close> in absolute value every integer
  and its two neighbours are doubles, so the result is exact; elsewhere, and on operands
  that are not numbers, the operation is outside the model.
\<close>

definition safe_int :: "int \<Rightarrow> bool" where
  "safe_int n = (- (2 ^ 53) < n \<and> n < 2 ^ 53)"

definition js_add_int :: "jsval \<Rightarrow> int \<Rightarrow> error + jsval" where
  "js_add_int v k =
     (case v of
        Num n \<Rightarrow> (if safe_int n then Inr (Num (n + k)) else Inl OutsideModel)
      | _ \<Rightarrow> Inl OutsideModel)"

definition incrementPage :: "builder \<Rightarrow> error + (ret \<times> builder)" where
  "incrementPage b =
     (case currentPage b of
        Inl e \<Rightarrow> Inl e
      | Inr p \<Rightarrow>
          (case js_add_int p 1 of
             Inl e \<Rightarrow> Inl e
           | Inr p' \<Rightarrow>
               (case setPage b p' of
                  Inl e \<Rightarrow> Inl e
                | Inr (_, b') \<Rightarrow> Inr (RThis, b'))))"

definition decrementPage :: "builder \<Rightarrow> error + (ret \<times> builder)" where
  "decrementPage b =
     (case currentPage b of
        Inl e \<Rightarrow> Inl e
      | Inr p \<Rightarrow>
          (case js_add_int p (- 1) of
             Inl e \<Rightarrow> Inl e
           | Inr p' \<Rightarrow>
               (case setPage b p' of
                  Inl e \<Rightarrow> Inl e
                | Inr (_, b') \<Rightarrow> Inr (RThis, b'))))"

section \<open>Reading a value out of the store\<close>

text \<open>
  The value a reference stands for, as a tree. The fuel bounds the nesting depth; a chain
  of distinct references is no longer than the store, so \<open>reify\<close> fails exactly on
  cyclic (or dangling) values. The tree of an array or object of another realm is that
  of one of the builder's realm; an object without prototype keeps its mark.
\<close>

datatype jstree =
    TUndefined
  | TNull
  | TBool bool
  | TNum int
  | TStr string
  | TArr "jstree list"
  | TObj "(string \<times> jstree) list"
  | TBare "(string \<times> jstree) list"

definition tree_of_cell :: "hobj \<Rightarrow> jstree list \<Rightarrow> jstree" where
  "tree_of_cell c ts =
     (case c of
        HArr _ \<Rightarrow> TArr ts
      | HObj kvs \<Rightarrow> TObj (zip (map fst kvs) ts)
      | HArrOther _ \<Rightarrow> TArr ts
      | HObjOther kvs \<Rightarrow> TObj (zip (map fst kvs) ts)
      | HObjBare kvs \<Rightarrow> TBare (zip (map fst kvs) ts))"

fun reify_fuel :: "nat \<Rightarrow> heap \<Rightarrow> jsval \<Rightarrow> jstree option" where
  "reify_fuel n h Undefined = Some TUndefined"
| "reify_fuel n h Null = Some TNull"
| "reify_fuel n h (Bool b) = Some (TBool b)"
| "reify_fuel n h (Num i) = Some (TNum i)"
| "reify_fuel n h (Str s) = Some (TStr s)"
| "reify_fuel 0 h (Ref a) = None"
| "reify_fuel (Suc n) h (Ref a) =
     (case lookup h a of
        None \<Rightarrow> None
      | Some c \<Rightarrow>
          map_option (tree_of_cell c) (those (map (reify_fuel n h) (cell_values c))))"

definition reify :: "heap \<Rightarrow> jsval \<Rightarrow> jstree option" where
  "reify h v = reify_fuel (length h) h v"

section \<open>Conversion to string and percent-encoding\<close>

definition digit_char :: "nat \<Rightarrow> char" where
  "digit_char d = ''0123456789ABCDEF'' ! (d mod 16)"

function nat_to_string :: "nat \<Rightarrow> string" where
  "nat_to_string n =
     (if n < 10 then [digit_char n] else nat_to_string (n div 10) @ [digit_char (n mod 10)])"
  by pat_completeness auto
termination
  by (relation "measure id") auto

declare nat_to_string.simps [simp del]

definition int_to_string :: "int \<Rightarrow> string" where
  "int_to_string i = (if i < 0 then CHR ''-'' # nat_to_string (nat (- i)) else nat_to_string (nat i))"

fun join :: "string \<Rightarrow> string list \<Rightarrow> string" where
  "join s [] = []"
| "join s [x] = x"
| "join s (x # y # ys) = x @ s @ join s (y # ys)"

text \<open>The results of a list of steps, or the first error among them.\<close>

fun first_error :: "(error + 'a) list \<Rightarrow> error + 'a list" where
  "first_error [] = Inr []"
| "first_error (Inl e # rs) = Inl e"
| "first_error (Inr x # rs) =
     (case first_error rs of Inl e \<Rightarrow> Inl e | Inr xs \<Rightarrow> Inr (x # xs))"

text \<open>
  JavaScript's ToString on the values of the model: an array is its elements joined by
  commas, with null and undefined elements empty; a plain object is
  \<^verbatim>\<open>[object Object]\<close>; an object without prototype has no \<^verbatim>\<open>toString\<close> and the
  conversion raises a TypeError. A number is printed in decimal, which is what
  JavaScript does for the integers below \<open>2 ^ 53\<close>; other numbers are outside the
  model.
\<close>

fun tree_to_string :: "jstree \<Rightarrow> error + string" where
  "tree_to_string TUndefined = Inr ''undefined''"
| "tree_to_string TNull = Inr ''null''"
| "tree_to_string (TBool b) = Inr (if b then ''true'' else ''false'')"
| "tree_to_string (TNum i) = (if safe_int i then Inr (int_to_string i) else Inl OutsideModel)"
| "tree_to_string (TStr s) = Inr s"
| "tree_to_string (TArr ts) =
     (case first_error (map (\<lambda>t. case t of TUndefined \<Rightarrow> Inr [] | TNull \<Rightarrow> Inr []
                                     | _ \<Rightarrow> tree_to_string t) ts) of
        Inl e \<Rightarrow> Inl e
      | Inr ss \<Rightarrow> Inr (join '','' ss))"
| "tree_to_string (TObj kvs) = Inr ''[object Object]''"
| "tree_to_string (TBare kvs) = Inl TypeError"

definition js_to_string :: "heap \<Rightarrow> jsval \<Rightarrow> error + string" where
  "js_to_string h v =
     (case reify h v of
        None \<Rightarrow> Inl OutsideModel
      | Some t \<Rightarrow> tree_to_string t)"

text \<open>
  \<^verbatim>\<open>encodeURIComponent\<close>: every character is replaced by the percent-encoded bytes of
  its UTF-8 form, except letters, digits and \<^verbatim>\<open>- _ . ! ~ * ' ( )\<close>. A code point from
  128 to 255 has two UTF-8 bytes.
\<close>

definition unreserved :: "char \<Rightarrow> bool" where
  "unreserved c =
     (c \<in> set (''ABCDEFGHIJKLMNOPQRSTUVWXYZabcdefghijklmnopqrstuvwxyz0123456789''
               @ [CHR ''-'', CHR ''_'', CHR ''.'', CHR ''!'', CHR ''~'', CHR ''*'',
                  CHR 0x27, CHR ''('', CHR '')'']))"

definition pct :: "nat \<Rightarrow> string" where
  "pct n = [CHR ''%'', digit_char (n div 16), digit_char (n mod 16)]"

definition encode_char :: "char \<Rightarrow> string" where
  "encode_char c =
     (let n = (of_char c :: nat) in
      if unreserved c then [c]
      else if n < 128 then pct n
      else pct (192 + n div 64) @ pct (128 + n mod 64))"

definition encodeURIComponent :: "string \<Rightarrow> string" where
  "encodeURIComponent s = concat (map encode_char s)"

text \<open>\<^verbatim>\<open>encodeURIComponent(v)\<close> on any value: ToString first.\<close>

definition encode_value :: "heap \<Rightarrow> jsval \<Rightarrow> error + string" where
  "encode_value h v =
     (case js_to_string h v of Inl e \<Rightarrow> Inl e | Inr s \<Rightarrow> Inr (encodeURIComponent s))"

section \<open>Serialization\<close>

text \<open>
  \<^verbatim>\<open>toQueryString\<close> threads two variables through its loops: the string built so far
  and the flag \<^verbatim>\<open>first\<close>. The flag is cleared at the end of each callback of
  \<^verbatim>\<open>each\<close>, after the inner loop over the elements of an array or the keys of an
  object, not inside it.
\<close>

definition sep :: "bool \<Rightarrow> string" where
  "sep first = (if first then ''?'' else ''&'')"

fun constraints_each :: "heap \<Rightarrow> collection \<Rightarrow> string \<times> bool \<Rightarrow> error + (string \<times> bool)" where
  "constraints_each h [] st = Inr st"
| "constraints_each h ((f, v) # cs) (qs, first) =
     (case encode_value h v of
        Inl e \<Rightarrow> Inl e
      | Inr ev \<Rightarrow>
          constraints_each h cs
            (qs @ sep first @ ''filters['' @ encodeURIComponent f @ ''][]='' @ ev, False))"

text \<open>The \<^verbatim>\<open>for\<close> loop over the elements of an array value.\<close>

fun array_loop :: "heap \<Rightarrow> string \<Rightarrow> jsval list \<Rightarrow> bool \<Rightarrow> string \<Rightarrow> error + string" where
  "array_loop h name [] first qs = Inr qs"
| "array_loop h name (x # xs) first qs =
     (case encode_value h x of
        Inl e \<Rightarrow> Inl e
      | Inr ev \<Rightarrow>
          array_loop h name xs first
            (qs @ sep first @ encodeURIComponent name @ ''[]='' @ ev))"

text \<open>The \<^verbatim>\<open>for ... in\<close> loop over the keys of an object value, in enumeration order.\<close>

fun object_loop ::
  "heap \<Rightarrow> string \<Rightarrow> (string \<times> jsval) list \<Rightarrow> bool \<Rightarrow> string \<Rightarrow> error + string" where
  "object_loop h name [] first qs = Inr qs"
| "object_loop h name ((k, x) # kvs) first qs =
     (case encode_value h x of
        Inl e \<Rightarrow> Inl e
      | Inr ev \<Rightarrow>
          object_loop h name kvs first
            (qs @ sep first @ encodeURIComponent name @ ''['' @ encodeURIComponent k
                @ '']='' @ ev))"

text \<open>The last branch of the callback over the parameters: one pair for the whole value.\<close>

definition scalar_item :: "heap \<Rightarrow> string \<Rightarrow> jsval \<Rightarrow> bool \<Rightarrow> string \<Rightarrow> error + string" where
  "scalar_item h name v first qs =
     (case encode_value h v of
        Inl e \<Rightarrow> Inl e
      | Inr ev \<Rightarrow> Inr (qs @ sep first @ encodeURIComponent name @ ''='' @ ev))"

text \<open>
  The body of the callback over the parameters: the new string. The first branch is
  taken by the instances of \<^verbatim>\<open>Array\<close>, the second by the other instances of
  \<^verbatim>\<open>Object\<close>, the last by every other value.
\<close>

definition appends_item :: "heap \<Rightarrow> string \<times> jsval \<Rightarrow> bool \<Rightarrow> string \<Rightarrow> error + string" where
  "appends_item h item first qs =
     (case item of (name, v) \<Rightarrow>
        (case v of
           Ref a \<Rightarrow>
             (case lookup h a of
                Some (HArr xs) \<Rightarrow> array_loop h name xs first qs
              | Some (HObj kvs) \<Rightarrow> object_loop h name kvs first qs
              | _ \<Rightarrow> scalar_item h name v first qs)
         | _ \<Rightarrow> scalar_item h name v first qs))"

fun appends_each :: "heap \<Rightarrow> collection \<Rightarrow> string \<times> bool \<Rightarrow> error + (string \<times> bool)" where
  "appends_each h [] st = Inr st"
| "appends_each h (item # items) (qs, first) =
     (case appends_item h item first qs of
        Inl e \<Rightarrow> Inl e
      | Inr qs' \<Rightarrow> appends_each h items (qs', False))"

definition toQueryString :: "heap \<Rightarrow> builder \<Rightarrow> error + string" where
  "toQueryString h b =
     (case constraints_each h (constraints b) ([], True) of
        Inl e \<Rightarrow> Inl e
      | Inr st \<Rightarrow>
          (case appends_each h (appends b) st of
             Inl e \<Rightarrow> Inl e
           | Inr (qs, _) \<Rightarrow> Inr qs))"

section \<open>Ordering and deep copies\<close>

text \<open>
  \<^verbatim>\<open>orderBy(...orderings)\<close>: the rest parameter is a new array holding the arguments,
  allocated by the call. The result of \<^verbatim>\<open>updateVariable\<close> or \<^verbatim>\<open>append\<close> is dropped
  and \<^verbatim>\<open>this\<close> is returned.
\<close>

definition orderBy :: "heap \<Rightarrow> builder \<Rightarrow> jsval list \<Rightarrow> error + (ret \<times> heap \<times> builder)" where
  "orderBy h b orderings =
     (case alloc h (HArr orderings) of (a, h') \<Rightarrow>
        (if hasVariable b ''order''
         then (case updateVariable b ''order'' (Ref a) of
                 Inl e \<Rightarrow> Inl e
               | Inr (_, b') \<Rightarrow> Inr (RThis, h', b'))
         else (case appendB b ''order'' (Ref a) of
                 Inl e \<Rightarrow> Inl e
               | Inr (_, b') \<Rightarrow> Inr (RThis, h', b'))))"

text \<open>
  Modelled from the spec: the function \<^verbatim>\<open>clone\<close> of the package \<^verbatim>\<open>clone\<close> is imported
  by \<^verbatim>\<open>Builder.js\<close> and is not part of the sources. The spec describes it as a
  structural clone, a recursive copy of arrays and maps: every array and object that the
  value reaches is allocated anew, primitives are returned as they are.

  \<open>reach_list\<close> lists the cells that a walk from the value meets, each once, so that a
  shared or cyclic structure is copied cell for cell. The copy of the \<open>i\<close>-th cell of
  the list is the \<open>i\<close>-th new cell: the same kind of cell with the same keys, each
  reference in it renamed to the copy of the cell it referred to.
\<close>

fun val_refs :: "jsval \<Rightarrow> addr list" where
  "val_refs (Ref a) = [a]"
| "val_refs v = []"

definition cell_refs :: "hobj \<Rightarrow> addr list" where
  "cell_refs c = concat (map val_refs (cell_values c))"

function reach_list :: "heap \<Rightarrow> addr list \<Rightarrow> addr list \<Rightarrow> addr list" where
  "reach_list h [] seen = seen"
| "reach_list h (a # todo) seen =
     (if a < length h \<and> a \<notin> set seen
      then reach_list h (cell_refs (h ! a) @ todo) (seen @ [a])
      else reach_list h todo seen)"
  by pat_completeness auto
termination
proof (relation "measures [\<lambda>(h, todo, seen). length (filter (\<lambda>x. x \<notin> set seen) [0..<length h]),
    \<lambda>(h, todo, seen). length todo]", goal_cases)
  case 1
  show ?case by simp
next
  case (2 h a todo seen)
  let ?xs = "filter (\<lambda>x. x \<notin> set seen) [0..<length h]"
  from 2 have "a \<in> set ?xs" by simp
  then have "length (filter (\<lambda>x. x \<noteq> a) ?xs) < length ?xs"
    by (intro length_filter_less [of a]) simp_all
  moreover have "filter (\<lambda>x. x \<notin> set (seen @ [a])) [0..<length h] = filter (\<lambda>x. x \<noteq> a) ?xs"
    by (simp add: conj_commute)
  ultimately show ?case by simp
next
  case (3 h a todo seen)
  then show ?case by simp
qed

fun index_of :: "addr list \<Rightarrow> addr \<Rightarrow> nat" where
  "index_of [] x = 0"
| "index_of (y # ys) x = (if y = x then 0 else Suc (index_of ys x))"

fun rename :: "(addr \<Rightarrow> addr) \<Rightarrow> jsval \<Rightarrow> jsval" where
  "rename r (Ref a) = Ref (r a)"
| "rename r v = v"

definition map_cell :: "(jsval \<Rightarrow> jsval) \<Rightarrow> hobj \<Rightarrow> hobj" where
  "map_cell f c =
     (case c of
        HArr xs \<Rightarrow> HArr (map f xs)
      | HObj kvs \<Rightarrow> HObj (map (\<lambda>(k, x). (k, f x)) kvs)
      | HArrOther xs \<Rightarrow> HArrOther (map f xs)
      | HObjOther kvs \<Rightarrow> HObjOther (map (\<lambda>(k, x). (k, f x)) kvs)
      | HObjBare kvs \<Rightarrow> HObjBare (map (\<lambda>(k, x). (k, f x)) kvs))"

text \<open>Where the copy of a cell goes: after the cells of the store, in the order of the list.\<close>

definition copy_addr :: "heap \<Rightarrow> addr list \<Rightarrow> addr \<Rightarrow> addr" where
  "copy_addr h cells a = length h + index_of cells a"

text \<open>
  Modelled from the spec: \<^verbatim>\<open>clone(value)\<close>, the structural clone of a value. A
  reference to no cell does not arise in a program and is outside the model.
\<close>

definition clone :: "heap \<Rightarrow> jsval \<Rightarrow> error + (jsval \<times> heap)" where
  "clone h v =
     (case v of
        Ref a \<Rightarrow>
          (case lookup h a of
             None \<Rightarrow> Inl OutsideModel
           | Some _ \<Rightarrow>
               (let cells = reach_list h [a] [] in
                Inr (Ref (copy_addr h cells a),
                     h @ map (\<lambda>x. map_cell (rename (copy_addr h cells)) (h ! x)) cells)))
      | _ \<Rightarrow> Inr (v, h))"

definition getConstraintValue :: "heap \<Rightarrow> builder \<Rightarrow> string \<Rightarrow> error + (jsval \<times> heap)" where
  "getConstraintValue h b fname =
     (case collection_get (constraints b) fname of
        Some v \<Rightarrow> (if instanceof_Object h v then clone h v else Inr (v, h))
      | None \<Rightarrow> Inr (Null, h))"

definition orderingBy :: "heap \<Rightarrow> builder \<Rightarrow> error + (jsval \<times> heap)" where
  "orderingBy h b =
     (if hasVariable b ''order'' then clone h (getVariable b ''order'' Null)
      else Inr (Null, h))"

section \<open>Response dispatch\<close>

text \<open>
  Each of the four requests hands the transport a table from status codes to handlers.
  The transport, the model constructor and the collection class are external; the model
  has the transport deliver one response, a status and the value passed to the handler,
  and records the calls of the two callbacks. A callback argument either is a function
  or is not (\<^verbatim>\<open>typeof cb == 'function'\<close>); calling what is not a function raises a
  TypeError.
\<close>

datatype callback = Function | NotFunction

text \<open>A model instance made from a record, with its \<^verbatim>\<open>exists\<close> flag.\<close>

datatype model_inst = Model jsval bool

datatype call =
    ErrorCall jsval nat
  | SuccessCollection "model_inst list" builder "jsval option"
  | SuccessModel model_inst

text \<open>\<^verbatim>\<open>payload['data']\<close>: a property read, which raises on null and undefined.\<close>

definition get_data :: "heap \<Rightarrow> jsval \<Rightarrow> error + jsval" where
  "get_data h payload =
     (case payload of
        Undefined \<Rightarrow> Inl TypeError
      | Null \<Rightarrow> Inl TypeError
      | Ref a \<Rightarrow>
          (case lookup h a of
             Some (HObj kvs) \<Rightarrow>
               (case map_of kvs ''data'' of None \<Rightarrow> Inr Undefined | Some d \<Rightarrow> Inr d)
           | Some (HObjOther kvs) \<Rightarrow>
               (case map_of kvs ''data'' of None \<Rightarrow> Inr Undefined | Some d \<Rightarrow> Inr d)
           | Some (HObjBare kvs) \<Rightarrow>
               (case map_of kvs ''data'' of None \<Rightarrow> Inr Undefined | Some d \<Rightarrow> Inr d)
           | Some (HArr _) \<Rightarrow> Inr Undefined
           | Some (HArrOther _) \<Rightarrow> Inr Undefined
           | None \<Rightarrow> Inl OutsideModel)
      | _ \<Rightarrow> Inr Undefined)"

text \<open>
  \<^verbatim>\<open>encapsulateData(items)\<close> on an array makes one model per record and marks it as
  existing; reading \<^verbatim>\<open>items.length\<close> raises on null and undefined. Other arguments are
  handed on to the external collection class and are outside the model. The models are
  returned; that they also replace the records inside the array is not represented.
\<close>

definition encapsulateData :: "heap \<Rightarrow> jsval \<Rightarrow> error + model_inst list" where
  "encapsulateData h items =
     (case items of
        Undefined \<Rightarrow> Inl TypeError
      | Null \<Rightarrow> Inl TypeError
      | Ref a \<Rightarrow>
          (case lookup h a of
             Some (HArr xs) \<Rightarrow> Inr (map (\<lambda>x. Model x True) xs)
           | Some (HArrOther xs) \<Rightarrow> Inr (map (\<lambda>x. Model x True) xs)
           | _ \<Rightarrow> Inl OutsideModel)
      | _ \<Rightarrow> Inl OutsideModel)"

text \<open>Calling a callback with the arguments that the call records.\<close>

definition invoke :: "callback \<Rightarrow> call \<Rightarrow> error + call list" where
  "invoke cb c = (case cb of Function \<Rightarrow> Inr [c] | NotFunction \<Rightarrow> Inl TypeError)"

text \<open>The handler shared by the error statuses: guarded by \<^verbatim>\<open>typeof error\<close>.\<close>

definition on_error :: "callback \<Rightarrow> jsval \<Rightarrow> nat \<Rightarrow> error + call list" where
  "on_error err response code =
     (if err = Function then invoke err (ErrorCall response code) else Inr [])"

type_synonym handlers = "(nat \<times> (jsval \<Rightarrow> error + call list)) list"

text \<open>The \<^verbatim>\<open>statusCode\<close> table of \<^verbatim>\<open>get\<close>; its handler for 200 has no guard.\<close>

definition get_statusCode :: "heap \<Rightarrow> builder \<Rightarrow> callback \<Rightarrow> callback \<Rightarrow> handlers" where
  "get_statusCode h b success err =
     [(500, \<lambda>response. on_error err response 500),
      (422, \<lambda>response. on_error err response 500),
      (200, \<lambda>payload.
         (case get_data h payload of
            Inl e \<Rightarrow> Inl e
          | Inr d \<Rightarrow>
              (case encapsulateData h d of
                 Inl e \<Rightarrow> Inl e
               | Inr models \<Rightarrow> invoke success (SuccessCollection models b (Some payload)))))]"

definition update_statusCode :: "heap \<Rightarrow> builder \<Rightarrow> callback \<Rightarrow> callback \<Rightarrow> handlers" where
  "update_statusCode h b success err =
     [(500, \<lambda>response. on_error err response 500),
      (422, \<lambda>response. on_error err response 422),
      (200, \<lambda>payload.
         (if success = Function
          then (case get_data h payload of
                  Inl e \<Rightarrow> Inl e
                | Inr d \<Rightarrow>
                    (case encapsulateData h d of
                       Inl e \<Rightarrow> Inl e
                     | Inr models \<Rightarrow>
                         invoke success (SuccessCollection models b (Some payload))))
          else Inr []))]"

definition insert_statusCode :: "heap \<Rightarrow> builder \<Rightarrow> callback \<Rightarrow> callback \<Rightarrow> handlers" where
  "insert_statusCode h b success err =
     [(500, \<lambda>response. on_error err response 500),
      (422, \<lambda>response. on_error err response 422),
      (200, \<lambda>data.
         (if success = Function
          then invoke success (SuccessModel (Model data True))
          else Inr []))]"

definition deleteResults_statusCode ::
  "heap \<Rightarrow> builder \<Rightarrow> callback \<Rightarrow> callback \<Rightarrow> handlers" where
  "deleteResults_statusCode h b success err =
     [(500, \<lambda>response. on_error err response 500),
      (422, \<lambda>response. on_error err response 422),
      (403, \<lambda>_. on_error err Null 403),
      (200, \<lambda>data.
         (if success = Function
          then (case encapsulateData h data of
                  Inl e \<Rightarrow> Inl e
                | Inr models \<Rightarrow> invoke success (SuccessCollection models b None))
          else Inr []))]"

text \<open>The transport runs the handler of the response's status, if the table has one.\<close>

definition ajax :: "handlers \<Rightarrow> nat \<Rightarrow> jsval \<Rightarrow> error + call list" where
  "ajax table status response =
     (case map_of table status of
        None \<Rightarrow> Inr []
      | Some handler \<Rightarrow> handler response)"

datatype operation = Get | Update | Insert | DeleteResults

fun statusCode :: "operation \<Rightarrow> heap \<Rightarrow> builder \<Rightarrow> callback \<Rightarrow> callback \<Rightarrow> handlers" where
  "statusCode Get = get_statusCode"
| "statusCode Update = update_statusCode"
| "statusCode Insert = insert_statusCode"
| "statusCode DeleteResults = deleteResults_statusCode"

definition respond ::
  "operation \<Rightarrow> heap \<Rightarrow> builder \<Rightarrow> callback \<Rightarrow> callback \<Rightarrow> nat \<Rightarrow> jsval \<Rightarrow> error + call list" where
  "respond op h b success err status response =
     ajax (statusCode op h b success err) status response"

section \<open>Serialization, as the specification words it\<close>

text \<open>
  The specification describes the query string as a list of pairs, the constraints' first
  and then the parameters', an array parameter giving one pair per element and an object
  parameter one pair per key, written with \<^verbatim>\<open>?\<close> before the first pair and
  \<^verbatim>\<open>&\<close> before each of the others. \<open>spec_pairs\<close> and \<open>spec_render\<close> say this;
  they are compared with \<open>toQueryString\<close> below.
\<close>

fun collect :: "('a \<Rightarrow> error + 'b) \<Rightarrow> 'a list \<Rightarrow> error + 'b list" where
  "collect f [] = Inr []"
| "collect f (x # xs) =
     (case f x of
        Inl e \<Rightarrow> Inl e
      | Inr y \<Rightarrow> (case collect f xs of Inl e \<Rightarrow> Inl e | Inr ys \<Rightarrow> Inr (y # ys)))"

definition constraint_pair :: "heap \<Rightarrow> string \<times> jsval \<Rightarrow> error + string" where
  "constraint_pair h c =
     (case c of (f, v) \<Rightarrow>
        (case encode_value h v of
           Inl e \<Rightarrow> Inl e
         | Inr ev \<Rightarrow> Inr (''filters['' @ encodeURIComponent f @ ''][]='' @ ev)))"

definition element_pair :: "heap \<Rightarrow> string \<Rightarrow> jsval \<Rightarrow> error + string" where
  "element_pair h name x =
     (case encode_value h x of
        Inl e \<Rightarrow> Inl e
      | Inr ev \<Rightarrow> Inr (encodeURIComponent name @ ''[]='' @ ev))"

definition key_pair :: "heap \<Rightarrow> string \<Rightarrow> string \<times> jsval \<Rightarrow> error + string" where
  "key_pair h name kx =
     (case kx of (k, x) \<Rightarrow>
        (case encode_value h x of
           Inl e \<Rightarrow> Inl e
         | Inr ev \<Rightarrow>
             Inr (encodeURIComponent name @ ''['' @ encodeURIComponent k @ '']='' @ ev)))"

definition scalar_pair :: "heap \<Rightarrow> string \<Rightarrow> jsval \<Rightarrow> error + string list" where
  "scalar_pair h name v =
     (case encode_value h v of
        Inl e \<Rightarrow> Inl e
      | Inr ev \<Rightarrow> Inr [encodeURIComponent name @ ''='' @ ev])"

definition param_pairs :: "heap \<Rightarrow> string \<times> jsval \<Rightarrow> error + string list" where
  "param_pairs h item =
     (case item of (name, v) \<Rightarrow>
        (case v of
           Ref a \<Rightarrow>
             (case lookup h a of
                Some (HArr xs) \<Rightarrow> collect (element_pair h name) xs
              | Some (HObj kvs) \<Rightarrow> collect (key_pair h name) kvs
              | _ \<Rightarrow> scalar_pair h name v)
         | _ \<Rightarrow> scalar_pair h name v))"

definition spec_pairs :: "heap \<Rightarrow> builder \<Rightarrow> error + string list" where
  "spec_pairs h b =
     (case collect (constraint_pair h) (constraints b) of
        Inl e \<Rightarrow> Inl e
      | Inr cps \<Rightarrow>
          (case collect (param_pairs h) (appends b) of
             Inl e \<Rightarrow> Inl e
           | Inr pps \<Rightarrow> Inr (cps @ concat pps)))"

fun spec_render :: "string list \<Rightarrow> string" where
  "spec_render [] = []"
| "spec_render (p # ps) = ''?'' @ p @ concat (map (\<lambda>q. ''&'' @ q) ps)"

section \<open>Auxiliary notions for the statements\<close>

text \<open>
  Every method raises before it writes: when a call ends in an exception the builder is
  as it was. \<open>state_after\<close> is the builder after a call, \<open>and_then\<close> chains a call
  on the builder that a first call leaves.
\<close>

definition state_after :: "builder \<Rightarrow> error + (ret \<times> builder) \<Rightarrow> builder" where
  "state_after b r = (case r of Inl _ \<Rightarrow> b | Inr (_, b') \<Rightarrow> b')"

definition and_then :: "error + (ret \<times> builder) \<Rightarrow> (builder \<Rightarrow> error + 'a) \<Rightarrow> error + 'a" where
  "and_then r f = (case r of Inl e \<Rightarrow> Inl e | Inr (_, b) \<Rightarrow> f b)"

text \<open>
  The cells that a value reaches in a store: the cell it refers to, and the cells that
  the values held in that cell reach. A write through a reference can only change a cell
  that the reference reaches.
\<close>

inductive reaches :: "heap \<Rightarrow> jsval \<Rightarrow> addr \<Rightarrow> bool" for h :: heap where
  here: "reaches h (Ref a) a"
| step: "lookup h a = Some c \<Longrightarrow> x \<in> set (cell_values c) \<Longrightarrow> reaches h x d
         \<Longrightarrow> reaches h (Ref a) d"

code_pred reaches .

text \<open>A value, and the cells of a segment of the store, that refer to no address below \<open>n\<close>.\<close>

fun val_above :: "nat \<Rightarrow> jsval \<Rightarrow> bool" where
  "val_above n (Ref a) = (n \<le> a)"
| "val_above n v = True"

definition cells_above :: "nat \<Rightarrow> hobj list \<Rightarrow> bool" where
  "cells_above n e = (\<forall>c\<in>set e. \<forall>x\<in>set (cell_values c). val_above n x)"

text \<open>
  A list of cells of a store that holds, with each of its cells, the cells which that
  one refers to, but for those listed in \<open>todo\<close>.
\<close>

definition closed_upto :: "heap \<Rightarrow> addr list \<Rightarrow> addr list \<Rightarrow> bool" where
  "closed_upto h todo cells =
     (\<forall>x\<in>set cells. x < length h \<and>
        (\<forall>y\<in>set (cell_refs (h ! x)). y < length h \<longrightarrow> y \<in> set cells \<union> set todo))"

text \<open>
  Equal in value: there is a renaming \<open>r\<close> of addresses that takes \<open>v\<close> to \<open>v'\<close>
  and every cell that \<open>v\<close> reaches in \<open>h\<close> to a cell of \<open>h'\<close> of the same kind,
  with the same keys and primitives, whose references are the renamed ones.
\<close>

definition same_value :: "heap \<Rightarrow> jsval \<Rightarrow> heap \<Rightarrow> jsval \<Rightarrow> bool" where
  "same_value h v h' v' =
     (\<exists>r. v' = rename r v \<and>
        (\<forall>d. reaches h v d \<longrightarrow>
           lookup h' (r d) = map_option (map_cell (rename r)) (lookup h d)))"

text \<open>
  What it is for \<open>v'\<close> in the store \<open>h'\<close> to be a deep copy of \<open>v\<close> in the
  store \<open>h\<close>, made by a call that started in \<open>h\<close>:
  \<^item> the call left the cells of \<open>h\<close> as they were;
  \<^item> the copy is equal in value, and a value that can be read as a tree reads as the
    same tree;
  \<^item> the copy is not identical: a reference is copied to a reference to a new cell;
  \<^item> every cell that the copy reaches is new, so that a write to such a cell changes no
    cell of \<open>h\<close> and no value that could be read from \<open>h\<close>.
\<close>

definition deep_copy :: "heap \<Rightarrow> jsval \<Rightarrow> heap \<Rightarrow> jsval \<Rightarrow> bool" where
  "deep_copy h v h' v' =
     (take (length h) h' = h \<and>
      same_value h v h' v' \<and>
      (\<forall>t. reify h v = Some t \<longrightarrow> reify h' v' = Some t) \<and>
      (\<forall>a. v = Ref a \<longrightarrow> (\<exists>a'. v' = Ref a' \<and> a' \<noteq> a \<and> length h \<le> a')) \<and>
      (\<forall>c x. reaches h' v' c \<longrightarrow>
         length h \<le> c \<and>
         take (length h) (h'[c := x]) = h \<and>
         (\<forall>w u. reify h w = Some u \<longrightarrow> reify (h'[c := x]) w = Some u)))"

section \<open>The two stores\<close>

lemma collection_get_None_iff: "collection_get xs k = None \<longleftrightarrow> k \<notin> fst ` set xs"
  by (induction xs) (auto split: if_splits)

lemma collection_get_push:
  "collection_get (collection_push xs (k, v)) k' =
     (case collection_get xs k' of Some x \<Rightarrow> Some x | None \<Rightarrow> if k = k' then Some v else None)"
  by (induction xs) (auto simp: collection_push_def)

lemma collection_get_snoc:
  "collection_get (xs @ [(k, v)]) k' =
     (case collection_get xs k' of Some x \<Rightarrow> Some x | None \<Rightarrow> if k = k' then Some v else None)"
  using collection_get_push [of xs k v k'] by (simp add: collection_push_def)

lemma collection_get_set_value:
  "collection_get (set_value xs k v) k' =
     (if k' = k \<and> collection_get xs k \<noteq> None then Some v else collection_get xs k')"
  by (induction xs) (auto split: if_splits)

lemma keys_set_value: "map fst (set_value xs k v) = map fst xs"
  by (induction xs) auto

lemma set_value_pushed:
  "k \<notin> fst ` set xs \<Longrightarrow> set_value (xs @ [(k, v1)]) k v2 = xs @ [(k, v2)]"
  by (induction xs) auto

lemma set_value_twice: "set_value (set_value xs k v1) k v2 = set_value xs k v2"
  by (induction xs) auto

lemma filter_absent: "k \<notin> fst ` set xs \<Longrightarrow> filter (\<lambda>item. fst item = k) xs = []"
  by (induction xs) auto

lemma filter_set_value:
  "distinct (map fst xs) \<Longrightarrow> k \<in> fst ` set xs \<Longrightarrow>
     filter (\<lambda>item. fst item = k) (set_value xs k v) = [(k, v)]"
proof (induction xs)
  case Nil
  then show ?case by simp
next
  case (Cons x xs)
  show ?case
  proof (cases "fst x = k")
    case True
    with Cons.prems have "k \<notin> fst ` set xs" by auto
    then have "filter (\<lambda>item. fst item = k) xs = []" by (rule filter_absent)
    with True show ?thesis by (cases x) simp
  next
    case False
    with Cons show ?thesis by (cases x) auto
  qed
qed

text \<open>
  The keys of the constraint store are distinct in a new builder, and \<^verbatim>\<open>where\<close>, the
  only method that writes to that store, keeps them so.
\<close>

lemma new_builder_distinct: "distinct (map fst (constraints (new_builder m)))"
  by (simp add: new_builder_def)

lemma whereC_distinct:
  assumes "distinct (map fst (constraints b))"
  shows "distinct (map fst (constraints (snd (whereC b f v))))"
proof (cases "collection_get (constraints b) f")
  case None
  then have "f \<notin> fst ` set (constraints b)"
    by (simp add: collection_get_None_iff)
  with None assms show ?thesis
    by (simp add: whereC_def collection_push_def)
next
  case (Some x)
  with assms show ?thesis
    by (simp add: whereC_def keys_set_value)
qed

section \<open>Parameters: append and update\<close>

text \<open>
  C5. \<^verbatim>\<open>append(name, value)\<close> raises DuplicateVariableException exactly when a parameter
  of that name exists, and otherwise adds the parameter at the end of the store;
  \<^verbatim>\<open>updateVariable(name, value)\<close> raises UnknownVariableException exactly when no
  parameter of that name exists, and otherwise changes the value of that parameter,
  keeping the names, their order and the other values. After either exception the
  builder is as before.
\<close>

theorem append_update_errors:
  "(hasVariable b n \<longrightarrow>
      appendB b n v = Inl (DuplicateVariableException n) \<and>
      state_after b (appendB b n v) = b) \<and>
   (\<not> hasVariable b n \<longrightarrow>
      appendB b n v = Inr (RThis, b\<lparr>appends := appends b @ [(n, v)]\<rparr>) \<and>
      collection_get (appends (state_after b (appendB b n v))) n = Some v) \<and>
   (hasVariable b n \<longrightarrow>
      (\<exists>r b'. updateVariable b n v = Inr (r, b') \<and>
         collection_get (appends b') n = Some v \<and>
         map fst (appends b') = map fst (appends b) \<and>
         (\<forall>k. k \<noteq> n \<longrightarrow> collection_get (appends b') k = collection_get (appends b) k) \<and>
         constraints b' = constraints b)) \<and>
   (\<not> hasVariable b n \<longrightarrow>
      updateVariable b n v = Inl (UnknownVariableException n) \<and>
      state_after b (updateVariable b n v) = b)"
  by (simp add: appendB_def updateVariable_def state_after_def hasVariable_def
      collection_get_snoc collection_get_set_value keys_set_value collection_push_def)

theorem append_update_errors_witness:
  "hasVariable (new_builder ''/posts'') ''limit'' \<and>
   \<not> hasVariable (new_builder ''/posts'') ''tags'' \<and>
   appendB (new_builder ''/posts'') ''limit'' (Num 3) = Inl (DuplicateVariableException ''limit'') \<and>
   updateVariable (new_builder ''/posts'') ''tags'' (Num 3) = Inl (UnknownVariableException ''tags'') \<and>
   collection_get (appends (state_after (new_builder ''/posts'')
      (appendB (new_builder ''/posts'') ''tags'' (Num 3)))) ''tags'' = Some (Num 3)"
  using append_update_errors [of "new_builder ''/posts''" "''limit''" "Num 3"]
    append_update_errors [of "new_builder ''/posts''" "''tags''" "Num 3"]
  by (simp add: hasVariable_def new_builder_def state_after_def)

section \<open>Constraints: where\<close>

text \<open>
  C6. In a builder whose constraint keys are distinct, \<^verbatim>\<open>where(f, v1)\<close> followed by
  \<^verbatim>\<open>where(f, v2)\<close> leaves exactly one constraint with key \<open>f\<close>, of value \<open>v2\<close>; the
  second call does not move any key, so \<open>f\<close> stays where the first call left it: at
  its old position if it was there, at the end otherwise.
\<close>

theorem where_twice:
  assumes "distinct (map fst (constraints b))"
  shows "let b1 = snd (whereC b f v1); r2 = whereC b1 f v2; b2 = snd r2 in
     filter (\<lambda>item. fst item = f) (constraints b2) = [(f, v2)] \<and>
     map fst (constraints b2) = map fst (constraints b1) \<and>
     map fst (constraints b1) =
       (if f \<in> set (map fst (constraints b)) then map fst (constraints b)
        else map fst (constraints b) @ [f]) \<and>
     appends b2 = appends b \<and> fst r2 = RThis"
proof (cases "collection_get (constraints b) f")
  case None
  then have absent: "f \<notin> fst ` set (constraints b)"
    by (simp add: collection_get_None_iff)
  then have "filter (\<lambda>item. fst item = f) (constraints b) = []"
    by (rule filter_absent)
  with None absent show ?thesis
    by (simp add: whereC_def collection_push_def collection_get_snoc set_value_pushed Let_def)
next
  case (Some x)
  then have present: "f \<in> fst ` set (constraints b)"
    using collection_get_None_iff [of "constraints b" f] by auto
  with assms have "filter (\<lambda>item. fst item = f) (set_value (constraints b) f v2) = [(f, v2)]"
    by (rule filter_set_value [rotated -1, rotated])
  with Some present show ?thesis
    by (simp add: whereC_def collection_get_set_value set_value_twice keys_set_value Let_def)
qed

theorem where_twice_witness:
  "distinct (map fst (constraints (new_builder ''/posts''))) \<and>
   constraints (snd (whereC (snd (whereC (new_builder ''/posts'') ''status'' (Str ''active'')))
      ''status'' (Str ''closed''))) = [(''status'', Str ''closed'')]"
  using where_twice [of "new_builder ''/posts''" "''status''" "Str ''active''" "Str ''closed''"]
  by (simp add: new_builder_def whereC_def collection_push_def)

section \<open>Pagination\<close>

lemma setPage_currentPage:
  "collection_get (appends b) ''page'' = Some p \<Longrightarrow>
   \<exists>b'. setPage b q = Inr (RThis, b') \<and> currentPage b' = Inr q \<and>
        map fst (appends b') = map fst (appends b) \<and> constraints b' = constraints b"
  by (simp add: setPage_def currentPage_def collection_get_set_value keys_set_value)

text \<open>
  C9. On a new builder \<^verbatim>\<open>currentPage()\<close> is 1; after \<^verbatim>\<open>incrementPage()\<close> it is 2;
  after two calls of \<^verbatim>\<open>decrementPage()\<close> from 1 it is -1. In general, on a page that
  is an integer below \<open>2 ^ 53\<close> in absolute value, the two methods add and subtract
  exactly 1, with no lower bound.
\<close>

theorem page_steps:
  "currentPage (new_builder m) = Inr (Num 1) \<and>
   and_then (incrementPage (new_builder m)) currentPage = Inr (Num 2) \<and>
   and_then (decrementPage (new_builder m))
     (\<lambda>b1. and_then (decrementPage b1) currentPage) = Inr (Num (- 1)) \<and>
   (collection_get (appends b) ''page'' = Some (Num n) \<and> safe_int n \<longrightarrow>
      (\<exists>b'. incrementPage b = Inr (RThis, b') \<and> currentPage b' = Inr (Num (n + 1))) \<and>
      (\<exists>b'. decrementPage b = Inr (RThis, b') \<and> currentPage b' = Inr (Num (n - 1))))"
proof -
  have fresh: "currentPage (new_builder m) = Inr (Num 1)"
    by (simp add: currentPage_def new_builder_def)
  have inc: "and_then (incrementPage (new_builder m)) currentPage = Inr (Num 2)"
    by (simp add: and_then_def incrementPage_def currentPage_def setPage_def js_add_int_def
        safe_int_def new_builder_def)
  have dec: "and_then (decrementPage (new_builder m))
      (\<lambda>b1. and_then (decrementPage b1) currentPage) = Inr (Num (- 1))"
    by (simp add: and_then_def decrementPage_def currentPage_def setPage_def js_add_int_def
        safe_int_def new_builder_def)
  have gen: "(\<exists>b'. incrementPage b = Inr (RThis, b') \<and> currentPage b' = Inr (Num (n + 1))) \<and>
      (\<exists>b'. decrementPage b = Inr (RThis, b') \<and> currentPage b' = Inr (Num (n - 1)))"
    if page: "collection_get (appends b) ''page'' = Some (Num n)" and safe: "safe_int n"
  proof -
    from setPage_currentPage [OF page, of "Num (n + 1)"] obtain b1 where
      "setPage b (Num (n + 1)) = Inr (RThis, b1)" "currentPage b1 = Inr (Num (n + 1))" by blast
    moreover from setPage_currentPage [OF page, of "Num (n - 1)"] obtain b2 where
      "setPage b (Num (n - 1)) = Inr (RThis, b2)" "currentPage b2 = Inr (Num (n - 1))" by blast
    ultimately show ?thesis using page safe
      by (simp add: incrementPage_def decrementPage_def currentPage_def js_add_int_def)
  qed
  from fresh inc dec gen show ?thesis by blast
qed

theorem page_steps_witness:
  "collection_get (appends (snd (projr (setPage (new_builder ''/posts'') (Num (- 7))))))
      ''page'' = Some (Num (- 7)) \<and> safe_int (- 7) \<and>
   (\<exists>b'. decrementPage (snd (projr (setPage (new_builder ''/posts'') (Num (- 7)))))
        = Inr (RThis, b') \<and> currentPage b' = Inr (Num (- 8)))"
  using page_steps [of "''/posts''" "snd (projr (setPage (new_builder ''/posts'') (Num (- 7))))" "- 7"]
  by (simp add: setPage_def new_builder_def safe_int_def)

section \<open>Serialization of a new builder\<close>

text \<open>
  C4. On a new builder, whatever its model and the store, \<^verbatim>\<open>toQueryString()\<close> returns
  the string \<^verbatim>\<open>?limit=15&page=1\<close>.
\<close>

theorem fresh_toQueryString: "toQueryString h (new_builder m) = Inr ''?limit=15&page=1''"
  by (simp add: toQueryString_def new_builder_def appends_item_def scalar_item_def
      encode_value_def js_to_string_def reify_def safe_int_def int_to_string_def
      nat_to_string.simps digit_char_def sep_def encodeURIComponent_def encode_char_def
      unreserved_def)

section \<open>Ordering\<close>

lemma orderBy_result:
  "\<exists>b'. orderBy h b os = Inr (RThis, h @ [HArr os], b') \<and>
      lookup (h @ [HArr os]) (length h) = Some (HArr os) \<and>
      collection_get (appends b') ''order'' = Some (Ref (length h)) \<and>
      hasVariable b' ''order'' \<and>
      constraints b' = constraints b"
  by (simp add: orderBy_def alloc_def lookup_def hasVariable_def updateVariable_def appendB_def
      collection_get_set_value collection_get_snoc collection_push_def)

text \<open>
  C10. In every builder state \<^verbatim>\<open>orderBy(...)\<close> succeeds, allocates the array of its
  arguments and makes it the value of the parameter \<^verbatim>\<open>order\<close>, whatever that parameter
  held before. With no argument the array is empty: \<^verbatim>\<open>hasVariable('order')\<close> is then
  true and \<^verbatim>\<open>orderingBy()\<close> returns an empty array, not null.
\<close>

theorem orderBy_stores_arguments:
  "(\<exists>b'. orderBy h b os = Inr (RThis, h @ [HArr os], b') \<and>
      lookup (h @ [HArr os]) (length h) = Some (HArr os) \<and>
      collection_get (appends b') ''order'' = Some (Ref (length h)) \<and>
      hasVariable b' ''order'' \<and>
      constraints b' = constraints b) \<and>
   (\<exists>b' a h''. orderBy h b [] = Inr (RThis, h @ [HArr []], b') \<and>
      hasVariable b' ''order'' \<and>
      orderingBy (h @ [HArr []]) b' = Inr (Ref a, h'') \<and>
      lookup h'' a = Some (HArr []))"
proof
  show "\<exists>b'. orderBy h b os = Inr (RThis, h @ [HArr os], b') \<and>
      lookup (h @ [HArr os]) (length h) = Some (HArr os) \<and>
      collection_get (appends b') ''order'' = Some (Ref (length h)) \<and>
      hasVariable b' ''order'' \<and>
      constraints b' = constraints b"
    by (rule orderBy_result)
next
  from orderBy_result [of h b "[]"] obtain b' where
    ob: "orderBy h b [] = Inr (RThis, h @ [HArr []], b')"
    and stored: "collection_get (appends b') ''order'' = Some (Ref (length h))"
    and has: "hasVariable b' ''order''"
    by blast
  have "orderingBy (h @ [HArr []]) b' =
      Inr (Ref (Suc (length h)), h @ [HArr [], HArr []])"
    using stored has
    by (simp add: orderingBy_def getVariable_def clone_def lookup_def copy_addr_def
        cell_refs_def cell_values_def map_cell_def)
  moreover have "lookup (h @ [HArr [], HArr []]) (Suc (length h)) = Some (HArr [])"
    by (simp add: lookup_def nth_append)
  ultimately show "\<exists>b' a h''. orderBy h b [] = Inr (RThis, h @ [HArr []], b') \<and>
      hasVariable b' ''order'' \<and>
      orderingBy (h @ [HArr []]) b' = Inr (Ref a, h'') \<and>
      lookup h'' a = Some (HArr [])"
    using ob has by blast
qed

section \<open>Deep copies on read\<close>

text \<open>More fuel and a longer store do not change a value that could be read.\<close>

lemma those_Some_elem: "those ys = Some zs \<Longrightarrow> y \<in> set ys \<Longrightarrow> \<exists>z. y = Some z"
  by (induction ys arbitrary: zs) (auto split: option.splits)

lemma lookup_append: "lookup h a = Some c \<Longrightarrow> lookup (h @ e) a = Some c"
  by (auto simp: lookup_def nth_append split: if_splits)

lemma reify_fuel_mono:
  "reify_fuel n h v = Some t \<Longrightarrow> reify_fuel (n + k) (h @ e) v = Some t"
proof (induction n arbitrary: v t)
  case 0
  then show ?case by (cases v) auto
next
  case (Suc n)
  show ?case
  proof (cases v)
    case (Ref a)
    with Suc.prems obtain c where c: "lookup h a = Some c"
      by (auto split: option.splits)
    then have c': "lookup (h @ e) a = Some c" by (rule lookup_append)
    from Suc.prems Ref c obtain ts where
      ts: "those (map (reify_fuel n h) (cell_values c)) = Some ts" and t: "t = tree_of_cell c ts"
      by auto
    have eq: "map (reify_fuel (n + k) (h @ e)) (cell_values c) = map (reify_fuel n h) (cell_values c)"
    proof (rule map_cong [OF refl])
      fix x assume "x \<in> set (cell_values c)"
      then have "reify_fuel n h x \<in> set (map (reify_fuel n h) (cell_values c))" by simp
      with ts obtain u where "reify_fuel n h x = Some u"
        using those_Some_elem by blast
      with Suc.IH show "reify_fuel (n + k) (h @ e) x = reify_fuel n h x" by simp
    qed
    have "those (map (reify_fuel (n + k) (h @ e)) (cell_values c)) = Some ts"
      unfolding eq by (rule ts)
    with t Ref c' show ?thesis by simp
  qed (use Suc.prems in auto)
qed

lemma reify_append:
  assumes "reify h w = Some u"
  shows "reify (h @ e) w = Some u"
  using reify_fuel_mono [of "length h" h w u "length e" e] assms by (simp add: reify_def)

text \<open>The cells of a walk.\<close>

lemma index_of_member: "x \<in> set xs \<Longrightarrow> index_of xs x < length xs \<and> xs ! index_of xs x = x"
  by (induction xs) auto

lemma index_of_other: "x \<notin> set xs \<Longrightarrow> index_of xs x = length xs"
  by (induction xs) auto

lemma cell_refs_iff: "y \<in> set (cell_refs c) \<longleftrightarrow> Ref y \<in> set (cell_values c)"
proof -
  have "y \<in> set (val_refs x) \<longleftrightarrow> x = Ref y" for x
    by (cases x) auto
  then show ?thesis by (auto simp: cell_refs_def)
qed

lemma closed_uptoD:
  "closed_upto h todo cells \<Longrightarrow> x \<in> set cells \<Longrightarrow> x < length h"
  "closed_upto h todo cells \<Longrightarrow> x \<in> set cells \<Longrightarrow> y \<in> set (cell_refs (h ! x)) \<Longrightarrow>
     y < length h \<Longrightarrow> y \<in> set cells \<or> y \<in> set todo"
  unfolding closed_upto_def by blast+

lemma closed_uptoI:
  assumes "\<And>x. x \<in> set cells \<Longrightarrow> x < length h"
    and "\<And>x y. x \<in> set cells \<Longrightarrow> y \<in> set (cell_refs (h ! x)) \<Longrightarrow> y < length h \<Longrightarrow>
      y \<in> set cells \<or> y \<in> set todo"
  shows "closed_upto h todo cells"
  unfolding closed_upto_def using assms by blast

lemma closed_upto_visit:
  assumes inv: "closed_upto h (a # todo) seen" and a: "a < length h"
  shows "closed_upto h (cell_refs (h ! a) @ todo) (seen @ [a])"
proof (rule closed_uptoI)
  fix x assume "x \<in> set (seen @ [a])"
  then have "x \<in> set seen \<or> x = a" by auto
  with closed_uptoD(1) [OF inv] a show "x < length h" by blast
next
  fix x y assume x: "x \<in> set (seen @ [a])" and y: "y \<in> set (cell_refs (h ! x))" "y < length h"
  show "y \<in> set (seen @ [a]) \<or> y \<in> set (cell_refs (h ! a) @ todo)"
  proof (cases "x = a")
    case True
    with y(1) show ?thesis by simp
  next
    case False
    with x have "x \<in> set seen" by simp
    from closed_uptoD(2) [OF inv this y] show ?thesis by auto
  qed
qed

lemma closed_upto_skip:
  assumes inv: "closed_upto h (a # todo) seen" and a: "\<not> (a < length h \<and> a \<notin> set seen)"
  shows "closed_upto h todo seen"
proof (rule closed_uptoI)
  fix x assume "x \<in> set seen"
  with closed_uptoD(1) [OF inv] show "x < length h" by blast
next
  fix x y assume x: "x \<in> set seen" and y: "y \<in> set (cell_refs (h ! x))" "y < length h"
  from closed_uptoD(2) [OF inv x y] have "y \<in> set seen \<or> y = a \<or> y \<in> set todo" by auto
  with a y(2) show "y \<in> set seen \<or> y \<in> set todo" by blast
qed

lemma reach_list_props:
  assumes "closed_upto h todo seen"
  shows "set seen \<subseteq> set (reach_list h todo seen) \<and>
     (\<forall>a\<in>set todo. a < length h \<longrightarrow> a \<in> set (reach_list h todo seen)) \<and>
     closed_upto h [] (reach_list h todo seen)"
  using assms
proof (induction h todo seen rule: reach_list.induct)
  case (1 h seen)
  then show ?case by simp
next
  case (2 h a todo seen)
  let ?R = "reach_list h (a # todo) seen"
  show ?case
  proof (cases "a < length h \<and> a \<notin> set seen")
    case True
    let ?R' = "reach_list h (cell_refs (h ! a) @ todo) (seen @ [a])"
    from True have eq: "?R = ?R'" by simp
    from True "2.prems" have "closed_upto h (cell_refs (h ! a) @ todo) (seen @ [a])"
      by (intro closed_upto_visit) simp_all
    from "2.IH"(1) [OF True this] have
      s: "set (seen @ [a]) \<subseteq> set ?R'"
      and t: "\<forall>b\<in>set (cell_refs (h ! a) @ todo). b < length h \<longrightarrow> b \<in> set ?R'"
      and c: "closed_upto h [] ?R'"
      by blast+
    from s have "set seen \<subseteq> set ?R'" and a: "a \<in> set ?R'" by simp_all
    moreover from t a have "\<forall>b\<in>set (a # todo). b < length h \<longrightarrow> b \<in> set ?R'" by simp
    ultimately show ?thesis unfolding eq using c by blast
  next
    case False
    from False have eq: "?R = reach_list h todo seen" by auto
    from "2.prems" False have "closed_upto h todo seen" by (rule closed_upto_skip)
    from "2.IH"(2) [OF False this] have
      s: "set seen \<subseteq> set (reach_list h todo seen)"
      and t: "\<forall>b\<in>set todo. b < length h \<longrightarrow> b \<in> set (reach_list h todo seen)"
      and c: "closed_upto h [] (reach_list h todo seen)"
      by blast+
    from False s have "a < length h \<longrightarrow> a \<in> set (reach_list h todo seen)" by auto
    with t have "\<forall>b\<in>set (a # todo). b < length h \<longrightarrow> b \<in> set (reach_list h todo seen)" by simp
    with s c show ?thesis unfolding eq by blast
  qed
qed

lemma reach_list_start:
  assumes "a < length h"
  shows "a \<in> set (reach_list h [a] []) \<and> closed_upto h [] (reach_list h [a] [])"
proof -
  have "closed_upto h [a] []" by (simp add: closed_upto_def)
  from reach_list_props [OF this] assms show ?thesis by (simp del: reach_list.simps)
qed

text \<open>A walk that starts at a cell lists every cell of the store that the cell reaches.\<close>

lemma reaches_closed:
  assumes "reaches h v d" and "\<forall>a. v = Ref a \<longrightarrow> a \<in> set cells \<or> length h \<le> a"
    and "closed_upto h [] cells"
  shows "d \<in> set cells \<or> length h \<le> d"
  using assms(1,2)
proof (induction rule: reaches.induct)
  case (here a)
  then show ?case by blast
next
  case (step a c x d)
  from step.hyps(1) have a: "a < length h" and c: "c = h ! a"
    by (auto simp: lookup_def split: if_splits)
  with step.prems have mem: "a \<in> set cells" by auto
  have "\<forall>y. x = Ref y \<longrightarrow> y \<in> set cells \<or> length h \<le> y"
  proof (intro allI impI)
    fix y assume "x = Ref y"
    with step.hyps(2) c have y: "y \<in> set (cell_refs (h ! a))" by (simp add: cell_refs_iff)
    show "y \<in> set cells \<or> length h \<le> y"
    proof (cases "y < length h")
      case True
      from closed_uptoD(2) [OF assms(3) mem y True] show ?thesis by simp
    next
      case False
      then show ?thesis by simp
    qed
  qed
  then show ?case by (rule step.IH)
qed

lemma cell_values_map_cell: "cell_values (map_cell f c) = map f (cell_values c)"
  by (cases c) (auto simp: cell_values_def map_cell_def)

lemma keys_map_fields: "map (fst \<circ> (\<lambda>(k, x). (k, f x))) kvs = map fst kvs"
  by (induction kvs) auto

lemma tree_of_cell_map_cell: "tree_of_cell (map_cell f c) = tree_of_cell c"
  by (cases c) (auto simp: tree_of_cell_def map_cell_def fun_eq_iff keys_map_fields)

lemma rename_id: "rename (\<lambda>a. a) v = v"
  by (cases v) auto

lemma no_reaches_primitive: "reaches h v d \<Longrightarrow> \<exists>a. v = Ref a"
  by (erule reaches.cases) auto

text \<open>A value reads in its copy as it does in the store.\<close>

lemma reify_fuel_copy:
  assumes "\<forall>d. reaches h v d \<longrightarrow>
      lookup h' (r d) = map_option (map_cell (rename r)) (lookup h d)"
    and "reify_fuel k h v = Some t"
  shows "reify_fuel k h' (rename r v) = Some t"
  using assms
proof (induction k arbitrary: v t)
  case 0
  then show ?case by (cases v) auto
next
  case (Suc k)
  show ?case
  proof (cases v)
    case (Ref a)
    with Suc.prems(2) obtain c where c: "lookup h a = Some c"
      by (auto split: option.splits)
    have "reaches h v a" unfolding Ref by (rule reaches.here)
    with Suc.prems(1) c have c': "lookup h' (r a) = Some (map_cell (rename r) c)" by simp
    from Suc.prems(2) Ref c obtain ts where
      ts: "those (map (reify_fuel k h) (cell_values c)) = Some ts" and t: "t = tree_of_cell c ts"
      by auto
    have eq: "map (reify_fuel k h') (map (rename r) (cell_values c))
        = map (reify_fuel k h) (cell_values c)"
      unfolding map_map
    proof (rule map_cong [OF refl])
      fix x assume x: "x \<in> set (cell_values c)"
      then have "reify_fuel k h x \<in> set (map (reify_fuel k h) (cell_values c))" by simp
      with ts obtain u where u: "reify_fuel k h x = Some u"
        using those_Some_elem by blast
      have "\<forall>d. reaches h x d \<longrightarrow>
          lookup h' (r d) = map_option (map_cell (rename r)) (lookup h d)"
      proof (intro allI impI)
        fix d assume "reaches h x d"
        with c x have "reaches h v d" unfolding Ref by (rule reaches.step)
        with Suc.prems(1) show "lookup h' (r d) = map_option (map_cell (rename r)) (lookup h d)"
          by blast
      qed
      from Suc.IH [OF this u] u show "(reify_fuel k h' \<circ> rename r) x = reify_fuel k h x"
        by simp
    qed
    have "those (map (reify_fuel k h') (cell_values (map_cell (rename r) c))) = Some ts"
      unfolding cell_values_map_cell eq by (rule ts)
    with t Ref c' show ?thesis by (simp add: tree_of_cell_map_cell)
  qed (use Suc.prems in auto)
qed

text \<open>What a value above \<open>n\<close> reaches through cells above \<open>n\<close> is above \<open>n\<close>.\<close>

lemma reaches_above:
  assumes "reaches (h @ e) v c" and "val_above (length h) v" and "cells_above (length h) e"
  shows "length h \<le> c"
  using assms
proof (induction rule: reaches.induct)
  case (here a)
  then show ?case by simp
next
  case (step a cell x d)
  from step.prems(1) have a: "length h \<le> a" by simp
  with step.hyps(1) have "cell \<in> set e"
    by (auto simp: lookup_def nth_append split: if_splits)
  with step.hyps(2) step.prems(2) have "val_above (length h) x"
    by (simp add: cells_above_def)
  with step show ?case by simp
qed

lemma same_valueI:
  assumes "v' = rename r v"
    and "\<And>d. reaches h v d \<Longrightarrow> lookup h' (r d) = map_option (map_cell (rename r)) (lookup h d)"
  shows "same_value h v h' v'"
  unfolding same_value_def using assms by blast

lemma deep_copy_primitive:
  assumes "\<And>a. v \<noteq> Ref a"
  shows "deep_copy h v h v"
proof -
  have none: "\<not> reaches h v d" for d
    using assms no_reaches_primitive by blast
  have "same_value h v h v"
    by (rule same_valueI [where r = "\<lambda>a. a"]) (simp_all add: rename_id none)
  with none assms show ?thesis unfolding deep_copy_def by simp
qed

text \<open>The clone of a value whose reference, if it is one, is to a cell of the store.\<close>

lemma clone_deep_copy:
  assumes "\<And>a. v = Ref a \<Longrightarrow> a < length h"
  shows "\<exists>v' h'. clone h v = Inr (v', h') \<and> deep_copy h v h' v'"
proof (cases "\<exists>a. v = Ref a")
  case False
  then have prim: "\<And>a. v \<noteq> Ref a" by blast
  then have "clone h v = Inr (v, h)" by (cases v) (auto simp: clone_def)
  with deep_copy_primitive [OF prim] show ?thesis by blast
next
  case True
  then obtain a where v: "v = Ref a" by blast
  with assms have a: "a < length h" by blast
  define cells where "cells = reach_list h [a] []"
  define r where "r = copy_addr h cells"
  define e where "e = map (\<lambda>x. map_cell (rename r) (h ! x)) cells"
  define h' where "h' = h @ e"
  from reach_list_start [OF a] have mem: "a \<in> set cells" and closed: "closed_upto h [] cells"
    by (simp_all add: cells_def)
  have len: "length e = length cells" by (simp add: e_def)
  have cl: "clone h v = Inr (Ref (r a), h')"
    using a by (simp add: clone_def v lookup_def cells_def r_def e_def h'_def Let_def)
  have r_ge: "length h \<le> r x" for x by (simp add: r_def copy_addr_def)
  have listed: "lookup h' (r x) = Some (map_cell (rename r) (h ! x))" if "x \<in> set cells" for x
  proof -
    from index_of_member [OF that] have "index_of cells x < length cells"
      and "cells ! index_of cells x = x" by simp_all
    then show ?thesis
      by (simp add: lookup_def h'_def r_def copy_addr_def nth_append e_def)
  qed
  have beyond: "lookup h' (r x) = None" if "length h \<le> x" for x
  proof -
    from that closed_uptoD(1) [OF closed] have "x \<notin> set cells" by (meson not_le)
    then have "index_of cells x = length cells" by (rule index_of_other)
    then show ?thesis by (simp add: lookup_def h'_def r_def copy_addr_def len)
  qed
  have corr: "lookup h' (r d) = map_option (map_cell (rename r)) (lookup h d)"
    if "reaches h v d" for d
  proof -
    from that mem closed have "d \<in> set cells \<or> length h \<le> d"
      by (intro reaches_closed [of h v d cells]) (simp_all add: v)
    then show ?thesis
    proof
      assume d: "d \<in> set cells"
      with closed_uptoD(1) [OF closed] have "d < length h" by blast
      with listed [OF d] show ?thesis by (simp add: lookup_def)
    next
      assume d: "length h \<le> d"
      with beyond [OF d] show ?thesis by (simp add: lookup_def)
    qed
  qed
  have above: "cells_above (length h) e"
  proof -
    have "val_above (length h) (rename r x)" for x
      by (cases x) (simp_all add: r_ge)
    then show ?thesis
      by (auto simp: cells_above_def e_def cell_values_map_cell)
  qed
  have fresh: "length h \<le> c" if "reaches h' (Ref (r a)) c" for c
    using that above unfolding h'_def by (intro reaches_above [of h e "Ref (r a)" c]) (simp_all add: r_ge)
  have keep: "take (length h) (h'[c := x]) = h \<and>
      (\<forall>w u. reify h w = Some u \<longrightarrow> reify (h'[c := x]) w = Some u)" if "length h \<le> c" for c x
  proof -
    from that have "h'[c := x] = h @ e[c - length h := x]"
      by (simp add: h'_def list_update_append)
    then show ?thesis by (simp add: reify_append)
  qed
  have reads: "reify h' (Ref (r a)) = Some t" if "reify h v = Some t" for t
  proof -
    from that have "reify_fuel (length h) h v = Some t" by (simp add: reify_def)
    with corr have "reify_fuel (length h) h' (rename r v) = Some t"
      by (intro reify_fuel_copy [of h v h' r]) blast+
    from reify_fuel_mono [OF this, of "length e" "[]"] show ?thesis
      by (simp add: reify_def v h'_def)
  qed
  have "deep_copy h v h' (Ref (r a))"
    unfolding deep_copy_def
  proof (intro conjI)
    show "take (length h) h' = h" by (simp add: h'_def)
    show "same_value h v h' (Ref (r a))"
      using corr by (intro same_valueI [where r = r]) (simp_all add: v)
    show "\<forall>t. reify h v = Some t \<longrightarrow> reify h' (Ref (r a)) = Some t"
      using reads by blast
    show "\<forall>b. v = Ref b \<longrightarrow> (\<exists>a'. Ref (r a) = Ref a' \<and> a' \<noteq> b \<and> length h \<le> a')"
      using a r_ge [of a] by (auto simp: v)
    show "\<forall>c x. reaches h' (Ref (r a)) c \<longrightarrow>
        length h \<le> c \<and> take (length h) (h'[c := x]) = h \<and>
        (\<forall>w u. reify h w = Some u \<longrightarrow> reify (h'[c := x]) w = Some u)"
      using fresh keep by blast
  qed
  with cl show ?thesis by blast
qed

lemma instanceof_Object_Ref:
  "instanceof_Object h v \<Longrightarrow> v = Ref a \<Longrightarrow> a < length h"
  by (auto simp: instanceof_Object_def lookup_def split: if_splits)

text \<open>
  C8. \<^verbatim>\<open>getConstraintValue(filter)\<close> returns null when the filter is unset, and
  \<^verbatim>\<open>orderingBy()\<close> returns null when there is no parameter \<^verbatim>\<open>order\<close>. When the
  stored constraint value is an instance of \<^verbatim>\<open>Object\<close>, \<^verbatim>\<open>getConstraintValue\<close>
  returns a deep copy of it, in the sense of \<open>deep_copy\<close>: equal in value, not
  identical, and reaching new cells only, so that a write through it leaves the cells
  of the builder's values as they were; this holds of cyclic values too. Every other
  stored value, primitive or not, it returns as it is. \<^verbatim>\<open>orderingBy()\<close> returns a deep
  copy of the stored ordering whatever it is.
\<close>

theorem reads_copy_instances_of_Object:
  "(collection_get (constraints b) f = None \<longrightarrow> getConstraintValue h b f = Inr (Null, h)) \<and>
   (\<not> hasVariable b ''order'' \<longrightarrow> orderingBy h b = Inr (Null, h)) \<and>
   (collection_get (constraints b) f = Some v \<and> instanceof_Object h v \<longrightarrow>
      (\<exists>v' h'. getConstraintValue h b f = Inr (v', h') \<and> deep_copy h v h' v')) \<and>
   (collection_get (constraints b) f = Some v \<and> \<not> instanceof_Object h v \<longrightarrow>
      getConstraintValue h b f = Inr (v, h)) \<and>
   (collection_get (appends b) ''order'' = Some v \<and> (\<forall>a. v = Ref a \<longrightarrow> a < length h) \<longrightarrow>
      (\<exists>v' h'. orderingBy h b = Inr (v', h') \<and> deep_copy h v h' v'))"
proof (intro conjI impI)
  assume "collection_get (constraints b) f = None"
  then show "getConstraintValue h b f = Inr (Null, h)"
    by (simp add: getConstraintValue_def)
next
  assume "\<not> hasVariable b ''order''"
  then show "orderingBy h b = Inr (Null, h)"
    by (simp add: orderingBy_def)
next
  assume a: "collection_get (constraints b) f = Some v \<and> instanceof_Object h v"
  then have g: "getConstraintValue h b f = clone h v"
    by (simp add: getConstraintValue_def)
  from a have "\<And>a. v = Ref a \<Longrightarrow> a < length h"
    using instanceof_Object_Ref by blast
  then show "\<exists>v' h'. getConstraintValue h b f = Inr (v', h') \<and> deep_copy h v h' v'"
    unfolding g by (rule clone_deep_copy)
next
  assume "collection_get (constraints b) f = Some v \<and> \<not> instanceof_Object h v"
  then show "getConstraintValue h b f = Inr (v, h)"
    by (simp add: getConstraintValue_def)
next
  assume a: "collection_get (appends b) ''order'' = Some v \<and> (\<forall>a. v = Ref a \<longrightarrow> a < length h)"
  then have g: "orderingBy h b = clone h v"
    by (simp add: orderingBy_def hasVariable_def getVariable_def)
  from a have "\<And>a. v = Ref a \<Longrightarrow> a < length h" by blast
  then show "\<exists>v' h'. orderingBy h b = Inr (v', h') \<and> deep_copy h v h' v'"
    unfolding g by (rule clone_deep_copy)
qed

text \<open>
  An array of another realm is not an instance of \<^verbatim>\<open>Object\<close>: stored as the value
  of a constraint, it is returned by \<^verbatim>\<open>getConstraintValue\<close> itself, not copied.
\<close>

theorem getConstraintValue_returns_stored_reference:
  "collection_get (constraints (snd (whereC (new_builder ''/posts'') ''tags'' (Ref 0)))) ''tags''
     = Some (Ref 0) \<and>
   lookup [HArrOther [Str ''a'']] 0 = Some (HArrOther [Str ''a'']) \<and>
   getConstraintValue [HArrOther [Str ''a'']]
       (snd (whereC (new_builder ''/posts'') ''tags'' (Ref 0))) ''tags''
     = Inr (Ref 0, [HArrOther [Str ''a'']]) \<and>
   \<not> deep_copy [HArrOther [Str ''a'']] (Ref 0) [HArrOther [Str ''a'']] (Ref 0)"
  by (simp add: whereC_def new_builder_def collection_push_def lookup_def
      getConstraintValue_def instanceof_Object_def deep_copy_def)

theorem reads_copy_instances_of_Object_witness:
  "collection_get (constraints (snd (whereC (new_builder ''/posts'') ''tags'' (Ref 0)))) ''tags''
     = Some (Ref 0) \<and>
   instanceof_Object [HArr [Str ''a'', Ref 1], HObj [(''self'', Ref 0)]] (Ref 0) \<and>
   getConstraintValue [HArr [Str ''a'', Ref 1], HObj [(''self'', Ref 0)]]
       (snd (whereC (new_builder ''/posts'') ''tags'' (Ref 0))) ''tags''
     = Inr (Ref 2, [HArr [Str ''a'', Ref 1], HObj [(''self'', Ref 0)],
                    HArr [Str ''a'', Ref 3], HObj [(''self'', Ref 2)]]) \<and>
   reaches [HArr [Str ''a'', Ref 1], HObj [(''self'', Ref 0)],
            HArr [Str ''a'', Ref 3], HObj [(''self'', Ref 2)]] (Ref 2) 3 \<and>
   take 2 ([HArr [Str ''a'', Ref 1], HObj [(''self'', Ref 0)],
            HArr [Str ''a'', Ref 3], HObj [(''self'', Ref 2)]] [3 := HObj [(''self'', Null)]])
     = [HArr [Str ''a'', Ref 1], HObj [(''self'', Ref 0)]] \<and>
   \<not> instanceof_Object [HObjBare [(''k'', Num 1)]] (Ref 0) \<and>
   getConstraintValue [HObjBare [(''k'', Num 1)]]
       (snd (whereC (new_builder ''/posts'') ''tags'' (Ref 0))) ''tags''
     = Inr (Ref 0, [HObjBare [(''k'', Num 1)]]) \<and>
   collection_get (constraints (new_builder ''/posts'')) ''tags'' = None \<and>
   getConstraintValue [] (new_builder ''/posts'') ''tags'' = Inr (Null, []) \<and>
   \<not> hasVariable (new_builder ''/posts'') ''order'' \<and>
   orderingBy [] (new_builder ''/posts'') = Inr (Null, []) \<and>
   collection_get (appends (state_after (new_builder ''/posts'')
       (appendB (new_builder ''/posts'') ''order'' (Ref 0)))) ''order'' = Some (Ref 0) \<and>
   orderingBy [HArrOther [Str ''a'', Ref 0]]
       (state_after (new_builder ''/posts'') (appendB (new_builder ''/posts'') ''order'' (Ref 0)))
     = Inr (Ref 1, [HArrOther [Str ''a'', Ref 0], HArrOther [Str ''a'', Ref 1]])"
proof -
  let ?h = "[HArr [Str ''a'', Ref 1], HObj [(''self'', Ref 0)]]"
  let ?h' = "[HArr [Str ''a'', Ref 1], HObj [(''self'', Ref 0)],
             HArr [Str ''a'', Ref 3], HObj [(''self'', Ref 2)]]"
  let ?k = "[HObjBare [(''k'', Num 1)]]"
  let ?j = "[HArrOther [Str ''a'', Ref 0]]"
  let ?b = "snd (whereC (new_builder ''/posts'') ''tags'' (Ref 0))"
  let ?o = "state_after (new_builder ''/posts'') (appendB (new_builder ''/posts'') ''order'' (Ref 0))"
  have c: "collection_get (constraints ?b) ''tags'' = Some (Ref 0)"
    by (simp add: whereC_def new_builder_def collection_push_def)
  have i: "instanceof_Object ?h (Ref 0)"
    by (simp add: instanceof_Object_def lookup_def)
  have nk: "\<not> instanceof_Object ?k (Ref 0)"
    by (simp add: instanceof_Object_def lookup_def)
  have o: "collection_get (appends ?o) ''order'' = Some (Ref 0)"
    by (simp add: state_after_def appendB_def hasVariable_def new_builder_def collection_push_def)
  have n: "collection_get (constraints (new_builder ''/posts'')) ''tags'' = None"
    "\<not> hasVariable (new_builder ''/posts'') ''order''"
    by (simp_all add: new_builder_def hasVariable_def)
  have cl: "clone ?h (Ref 0) = Inr (Ref 2, ?h')"
    by (simp add: clone_def lookup_def copy_addr_def cell_refs_def cell_values_def
        map_cell_def)
  have g: "getConstraintValue ?h ?b ''tags'' = Inr (Ref 2, ?h')"
    using c i cl by (simp add: getConstraintValue_def)
  have clj: "clone ?j (Ref 0) = Inr (Ref 1, [HArrOther [Str ''a'', Ref 0], HArrOther [Str ''a'', Ref 1]])"
    by (simp add: clone_def lookup_def copy_addr_def cell_refs_def cell_values_def
        map_cell_def)
  have ob: "orderingBy ?j ?o = Inr (Ref 1, [HArrOther [Str ''a'', Ref 0], HArrOther [Str ''a'', Ref 1]])"
    using o clj by (simp add: orderingBy_def hasVariable_def getVariable_def)
  have rc: "reaches ?h' (Ref 2) 3"
    by (rule reaches.step [where c = "HArr [Str ''a'', Ref 3]" and x = "Ref 3"])
      (simp_all add: lookup_def cell_values_def reaches.here)
  note inst = reads_copy_instances_of_Object [of ?b "''tags''" ?h "Ref 0",
      THEN conjunct2, THEN conjunct2, THEN conjunct1, rule_format, OF conjI, OF c i]
  from inst obtain v' h' where gv: "getConstraintValue ?h ?b ''tags'' = Inr (v', h')"
    and dc: "deep_copy ?h (Ref 0) h' v'"
    by (elim conjE exE)
  from gv g have v': "v' = Ref 2" and h': "h' = ?h'" by simp_all
  from dc have "\<forall>c x. reaches ?h' (Ref 2) c \<longrightarrow> take (length ?h) (?h'[c := x]) = ?h"
    unfolding deep_copy_def v' h' by blast
  with rc have m: "take 2 (?h'[3 := HObj [(''self'', Null)]]) = ?h" by simp
  from reads_copy_instances_of_Object [of ?b "''tags''" ?k "Ref 0"] c nk
  have gk: "getConstraintValue ?k ?b ''tags'' = Inr (Ref 0, ?k)" by blast
  from reads_copy_instances_of_Object [of "new_builder ''/posts''" "''tags''" "[]" "Ref 0"] n
  have e: "getConstraintValue [] (new_builder ''/posts'') ''tags'' = Inr (Null, [])"
    "orderingBy [] (new_builder ''/posts'') = Inr (Null, [])"
    by blast+
  from c i g rc m nk gk n e o ob show ?thesis by (intro conjI)
qed

section \<open>Where the code departs from its documentation\<close>

text \<open>
  C7. The mutators return the builder, but \<^verbatim>\<open>updateVariable\<close>, documented as
  returning the builder, has no \<^verbatim>\<open>return\<close>: on a new builder
  \<^verbatim>\<open>updateVariable('limit', 20)\<close> changes the limit and returns \<^verbatim>\<open>undefined\<close>.
\<close>

theorem updateVariable_returns_undefined:
  "updateVariable (new_builder m) ''limit'' (Num 20) =
     Inr (RVal Undefined,
          \<lparr>model = m, constraints = [], appends = [(''limit'', Num 20), (''page'', Num 1)]\<rparr>)"
  by (simp add: updateVariable_def hasVariable_def new_builder_def)

text \<open>The other seven mutators return the builder whenever they return.\<close>

lemma mutators_return_this:
  "fst (whereC b f v) = RThis"
  "orderBy h b os = Inr (r, h', b') \<Longrightarrow> r = RThis"
  "setLimit b v = Inr (r, b') \<Longrightarrow> r = RThis"
  "setPage b v = Inr (r, b') \<Longrightarrow> r = RThis"
  "incrementPage b = Inr (r, b') \<Longrightarrow> r = RThis"
  "decrementPage b = Inr (r, b') \<Longrightarrow> r = RThis"
  "appendB b n v = Inr (r, b') \<Longrightarrow> r = RThis"
  by (auto simp: whereC_def orderBy_def setLimit_def setPage_def incrementPage_def
      decrementPage_def appendB_def alloc_def split: option.splits sum.splits if_splits)

text \<open>
  The loops of \<open>toQueryString\<close> write the pairs of the specification, each after the
  separator that the flag gives when its parameter is entered.
\<close>

lemma amp_cons: "(@) ''&'' = (#) CHR ''&''"
  by (rule ext) simp

lemma array_loop_pairs:
  "array_loop h name xs first qs =
     (case collect (element_pair h name) xs of
        Inl e \<Rightarrow> Inl e
      | Inr ps \<Rightarrow> Inr (qs @ concat (map (\<lambda>p. sep first @ p) ps)))"
  by (induction xs arbitrary: qs) (auto simp: element_pair_def split: sum.splits)

lemma object_loop_pairs:
  "object_loop h name kvs first qs =
     (case collect (key_pair h name) kvs of
        Inl e \<Rightarrow> Inl e
      | Inr ps \<Rightarrow> Inr (qs @ concat (map (\<lambda>p. sep first @ p) ps)))"
  by (induction kvs arbitrary: qs) (auto simp: key_pair_def split: sum.splits)

lemma appends_item_pairs:
  "appends_item h item first qs =
     (case param_pairs h item of
        Inl e \<Rightarrow> Inl e
      | Inr ps \<Rightarrow> Inr (qs @ concat (map (\<lambda>p. sep first @ p) ps)))"
  by (cases item)
    (auto simp: appends_item_def param_pairs_def scalar_item_def scalar_pair_def
      array_loop_pairs object_loop_pairs
      split: jsval.splits option.splits hobj.splits sum.splits)

lemma appends_each_rest:
  "appends_each h items (qs, False) =
     (case collect (param_pairs h) items of
        Inl e \<Rightarrow> Inl e
      | Inr pps \<Rightarrow> Inr (qs @ concat (map (\<lambda>p. ''&'' @ p) (concat pps)), False))"
  by (induction items arbitrary: qs)
    (auto simp: appends_item_pairs sep_def amp_cons split: sum.splits)

lemma constraints_each_rest:
  "constraints_each h cs (qs, False) =
     (case collect (constraint_pair h) cs of
        Inl e \<Rightarrow> Inl e
      | Inr ps \<Rightarrow> Inr (qs @ concat (map (\<lambda>p. ''&'' @ p) ps), False))"
  by (induction cs arbitrary: qs)
    (auto simp: constraint_pair_def sep_def amp_cons split: sum.splits)

text \<open>
  When the builder has a constraint, or its first parameter gives exactly one pair (as the
  limit does while it is a number or a string), the code returns the string of the
  specification.
\<close>

lemma toQueryString_pairs:
  assumes "constraints b = [] \<longrightarrow>
     (\<forall>item rest ps. appends b = item # rest \<and> param_pairs h item = Inr ps \<longrightarrow> length ps = 1)"
  shows "toQueryString h b =
     (case spec_pairs h b of Inl e \<Rightarrow> Inl e | Inr ps \<Rightarrow> Inr (spec_render ps))"
proof (cases "constraints b")
  case (Cons c cs)
  obtain f v where c: "c = (f, v)" by (cases c)
  show ?thesis
    by (auto simp: toQueryString_def spec_pairs_def Cons c constraints_each_rest
        appends_each_rest constraint_pair_def sep_def amp_cons split: sum.splits)
next
  case Nil
  show ?thesis
  proof (cases "appends b")
    case Nil
    with \<open>constraints b = []\<close> show ?thesis
      by (simp add: toQueryString_def spec_pairs_def)
  next
    case (Cons item rest)
    show ?thesis
    proof (cases "param_pairs h item")
      case (Inl e)
      with Cons \<open>constraints b = []\<close> show ?thesis
        by (simp add: toQueryString_def spec_pairs_def appends_item_pairs)
    next
      case (Inr ps)
      with assms Cons \<open>constraints b = []\<close> have "length ps = 1" by blast
      then obtain p where "ps = [p]" by (cases ps) auto
      with Inr Cons \<open>constraints b = []\<close> show ?thesis
        by (auto simp: toQueryString_def spec_pairs_def appends_item_pairs appends_each_rest
            sep_def amp_cons split: sum.splits)
    qed
  qed
qed

text \<open>
  C3. The separator is \<^verbatim>\<open>?\<close> before the first pair and \<^verbatim>\<open>&\<close> before the others, but
  the flag that says so is cleared once per parameter, not once per pair: when the first
  parameter to be written is an array of two elements, both pairs get \<^verbatim>\<open>?\<close>. Here
  the limit of a new builder is replaced by the array \<^verbatim>\<open>['a', 'b']\<close>.
\<close>

theorem array_limit_query:
  "and_then (updateVariable (new_builder m) ''limit'' (Ref 0))
     (toQueryString [HArr [Str ''a'', Str ''b'']]) = Inr ''?limit[]=a?limit[]=b&page=1''"
  by (simp add: and_then_def updateVariable_def hasVariable_def new_builder_def
      toQueryString_def appends_item_def scalar_item_def encode_value_def lookup_def
      js_to_string_def reify_def tree_of_cell_def cell_values_def safe_int_def
      int_to_string_def nat_to_string.simps digit_char_def sep_def encodeURIComponent_def
      encode_char_def unreserved_def)

text \<open>
  C1. A response of status 422 to \<^verbatim>\<open>get\<close> calls the error callback with the code
  500, not 422.
\<close>

theorem get_422_reports_500:
  "respond Get h b success Function 422 response = Inr [ErrorCall response 500]"
  by (simp add: respond_def ajax_def get_statusCode_def on_error_def invoke_def)

text \<open>On every other path the error callback gets the status of the response.\<close>

lemma error_statuses_reported:
  "respond op h b success Function 500 response = Inr [ErrorCall response 500]"
  "op \<noteq> Get \<Longrightarrow> respond op h b success Function 422 response = Inr [ErrorCall response 422]"
  "respond DeleteResults h b success Function 403 response = Inr [ErrorCall Null 403]"
  by (cases op; simp add: respond_def ajax_def get_statusCode_def update_statusCode_def
      insert_statusCode_def deleteResults_statusCode_def on_error_def invoke_def)+

text \<open>
  C2. The handler of \<^verbatim>\<open>get\<close> for the status 200 calls \<^verbatim>\<open>success\<close> without testing
  that it is a function: without a success callback, a response \<^verbatim>\<open>{data: []}\<close> of
  status 200 raises a TypeError.
\<close>

theorem get_200_without_success_raises:
  "respond Get [HObj [(''data'', Ref 1)], HArr []] b NotFunction err 200 (Ref 0) = Inl TypeError"
  by (simp add: respond_def ajax_def get_statusCode_def get_data_def encapsulateData_def
      lookup_def invoke_def)

text \<open>On every other path a missing callback is skipped in silence.\<close>

lemma silent_without_callback:
  "status \<noteq> 200 \<Longrightarrow> respond op h b success NotFunction status response = Inr []"
  "op \<noteq> Get \<Longrightarrow> respond op h b NotFunction err 200 response = Inr []"
  by (cases op; simp add: respond_def ajax_def get_statusCode_def update_statusCode_def
      insert_statusCode_def deleteResults_statusCode_def on_error_def)+

end
